theory Spec2Isabelle
  imports Complex_Main "HOL-Library.AList"
begin

section \<open>Python values used by \<open>password_cracker.py\<close>\<close>

text \<open>
  Python's unbounded integers are \<open>int\<close>; its floats (the readings of \<open>time.time()\<close>,
  elapsed times, rates and percentages) are idealised as \<open>real\<close>; a \<open>str\<close> is a
  \<open>string\<close>, one \<open>char\<close> per character. Exceptions are values: a computation that can
  raise returns \<open>py_error + 'a\<close>, with \<open>Inl\<close> for the exception.
\<close>

datatype py_error = ZeroDivisionError | TypeError | ValueError

definition and_then :: "py_error + 'a \<Rightarrow> ('a \<Rightarrow> py_error + 'b) \<Rightarrow> py_error + 'b" where
  "and_then r f = (case r of Inl e \<Rightarrow> Inl e | Inr x \<Rightarrow> f x)"

text \<open>True division \<open>a / b\<close>: raises on a zero divisor.\<close>

definition py_truediv :: "real \<Rightarrow> real \<Rightarrow> py_error + real" where
  "py_truediv a b = (if b = 0 then Inl ZeroDivisionError else Inr (a / b))"



text \<open>The constants of the \<open>string\<close> module.\<close>

definition ascii_lowercase :: string where
  "ascii_lowercase = ''abcdefghijklmnopqrstuvwxyz''"

definition ascii_uppercase :: string where
  "ascii_uppercase = ''ABCDEFGHIJKLMNOPQRSTUVWXYZ''"

definition ascii_letters :: string where
  "ascii_letters = ascii_lowercase @ ascii_uppercase"

definition digits :: string where
  "digits = ''0123456789''"

text \<open>\<open>string.punctuation\<close>, by code point: the 32 characters
  0x21..0x2F, 0x3A..0x40, 0x5B..0x60 and 0x7B..0x7E.\<close>

definition punctuation :: string where
  "punctuation =
     [CHR 0x21, CHR 0x22, CHR 0x23, CHR 0x24, CHR 0x25, CHR 0x26, CHR 0x27, CHR 0x28,
      CHR 0x29, CHR 0x2A, CHR 0x2B, CHR 0x2C, CHR 0x2D, CHR 0x2E, CHR 0x2F,
      CHR 0x3A, CHR 0x3B, CHR 0x3C, CHR 0x3D, CHR 0x3E, CHR 0x3F, CHR 0x40,
      CHR 0x5B, CHR 0x5C, CHR 0x5D, CHR 0x5E, CHR 0x5F, CHR 0x60,
      CHR 0x7B, CHR 0x7C, CHR 0x7D, CHR 0x7E]"

text \<open>
  \<open>itertools.product(pool, repeat=n)\<close>, after the reference implementation of the
  Python documentation: starting from the single empty tuple, each of the \<open>n\<close> rounds
  extends every tuple built so far, in order, by every element of the pool, in order.
  A negative \<open>repeat\<close> raises \<open>ValueError\<close>.
\<close>

fun product_repeat :: "'a list \<Rightarrow> nat \<Rightarrow> 'a list list" where
  "product_repeat pool 0 = [[]]"
| "product_repeat pool (Suc n) =
     concat (map (\<lambda>x. map (\<lambda>y. x @ [y]) pool) (product_repeat pool n))"

definition itertools_product :: "'a list \<Rightarrow> int \<Rightarrow> py_error + 'a list list" where
  "itertools_product pool rep =
     (if rep < 0 then Inl ValueError else Inr (product_repeat pool (nat rep)))"

text \<open>A \<open>collections.Counter\<close>: a dictionary whose missing keys read as 0.\<close>

definition counter_get :: "('k \<rightharpoonup> int) \<Rightarrow> 'k \<Rightarrow> int" where
  "counter_get m k = (case m k of None \<Rightarrow> 0 | Some n \<Rightarrow> n)"

definition counter_incr :: "('k \<rightharpoonup> int) \<Rightarrow> 'k \<Rightarrow> ('k \<rightharpoonup> int)" where
  "counter_incr m k = m(k \<mapsto> counter_get m k + 1)"

section \<open>The class \<open>PasswordCracker\<close>\<close>

text \<open>
  The instance is a record of its attributes. \<open>length_attempts\<close> is an association
  list, a Python dictionary keeping its keys in insertion order; \<open>attempts_by_length\<close>
  of the report is this very object. The field \<open>clock_reads\<close> is not an attribute: it
  counts the calls of \<open>time.time()\<close> made so far, and the external clock is a function
  \<open>clk\<close> from that count to the reading returned.
\<close>

record checkpoint =
  cp_attempts :: int
  cp_time :: real
  cp_rate :: real

record cracker =
  password :: string
  max_length :: int
  charset :: string
  verbose :: bool
  attempts :: int
  start_time :: "real option"
  end_time :: "real option"
  found :: bool
  cracked_password :: "string option"
  length_attempts :: "(int \<times> int) list"
  charset_hits :: "char \<rightharpoonup> int"
  time_checkpoints :: "checkpoint list"
  clock_reads :: nat

text \<open>
  \<open>__init__(self, password, max_length=6, charset=None, verbose=True)\<close>. The charset
  argument is \<open>None\<close> or a string; \<open>charset or default\<close> takes the default for both
  \<open>None\<close> and the empty string. The constructor only assigns: it has no \<open>raise\<close>.
\<close>

definition default_charset :: string where
  "default_charset = ascii_letters @ digits @ punctuation"

definition init :: "string \<Rightarrow> int \<Rightarrow> string option \<Rightarrow> bool \<Rightarrow> cracker" where
  "init pw ml cs vb =
     \<lparr> password = pw,
       max_length = ml,
       charset = (case cs of None \<Rightarrow> default_charset
                  | Some s \<Rightarrow> if s = [] then default_charset else s),
       verbose = vb,
       attempts = 0,
       start_time = None,
       end_time = None,
       found = False,
       cracked_password = None,
       length_attempts = [],
       charset_hits = Map.empty,
       time_checkpoints = [],
       clock_reads = 0 \<rparr>"

text \<open>
  The outcome of evaluating \<open>PasswordCracker(password, max_length, charset, verbose)\<close>:
  \<open>Inl\<close> an exception raised by the constructor, \<open>Inr\<close> the new instance.
\<close>

definition PasswordCracker :: "string \<Rightarrow> int \<Rightarrow> string option \<Rightarrow> bool \<Rightarrow> py_error + cracker" where
  "PasswordCracker pw ml cs vb = Inr (init pw ml cs vb)"

subsection \<open>\<open>estimate_theoretical_time\<close> and \<open>analyze_password_complexity\<close>\<close>






subsection \<open>\<open>crack\<close>\<close>

text \<open>
  Lines 104 to 111, the periodic progress update. The \<open>print\<close> calls of the verbose
  mode write to the console and change no attribute; they are left out, here and below.
\<close>

definition progress_update :: "(nat \<Rightarrow> real) \<Rightarrow> cracker \<Rightarrow> py_error + cracker" where
  "progress_update clk st =
     (if verbose st \<and> attempts st mod 100000 = 0 then
        (let now = clk (clock_reads st);
             st1 = st\<lparr>clock_reads := Suc (clock_reads st)\<rparr>
         in case start_time st1 of
              None \<Rightarrow> Inl TypeError
            | Some s \<Rightarrow>
                (let elapsed = now - s
                 in and_then
                      (if 0 < elapsed then py_truediv (of_int (attempts st1)) elapsed
                       else Inr 0)
                      (\<lambda>rate. Inr (st1\<lparr>time_checkpoints := time_checkpoints st1 @
                          [\<lparr>cp_attempts = attempts st1, cp_time = elapsed, cp_rate = rate\<rparr>]\<rparr>))))
      else Inr st)"

text \<open>Lines 96 to 115: one candidate is counted, its characters are tallied, and the
  progress update runs.\<close>

definition attempt :: "(nat \<Rightarrow> real) \<Rightarrow> cracker \<Rightarrow> string \<Rightarrow> py_error + cracker" where
  "attempt clk st guess =
     progress_update clk
       (st\<lparr>attempts := attempts st + 1,
           charset_hits := fold (\<lambda>c m. counter_incr m c) guess (charset_hits st)\<rparr>)"

text \<open>The inner loop (lines 95 to 121) over the candidates of one length, with its
  \<open>break\<close> at the first candidate equal to the password.\<close>

fun guess_loop :: "(nat \<Rightarrow> real) \<Rightarrow> cracker \<Rightarrow> string list \<Rightarrow> py_error + cracker" where
  "guess_loop clk st [] = Inr st"
| "guess_loop clk st (guess # rest) =
     (case attempt clk st guess of
        Inl e \<Rightarrow> Inl e
      | Inr st1 \<Rightarrow>
          if guess = password st1
          then Inr (st1\<lparr>found := True, cracked_password := Some guess\<rparr>)
          else guess_loop clk st1 rest)"

text \<open>The outer loop (lines 89 to 127) over the lengths, with its \<open>break\<close> once
  \<open>found\<close> is set.\<close>

fun length_loop :: "(nat \<Rightarrow> real) \<Rightarrow> cracker \<Rightarrow> int list \<Rightarrow> py_error + cracker" where
  "length_loop clk st [] = Inr st"
| "length_loop clk st (len # rest) =
     (let length_start = attempts st
      in case and_then (itertools_product (charset st) len) (guess_loop clk st) of
           Inl e \<Rightarrow> Inl e
         | Inr st1 \<Rightarrow>
             (let st2 = st1\<lparr>length_attempts :=
                         AList.update len (attempts st1 - length_start) (length_attempts st1)\<rparr>
              in if found st2 then Inr st2 else length_loop clk st2 rest))"

text \<open>\<open>crack\<close> returns \<open>self.found\<close>; the model returns the instance, whose \<open>found\<close>
  field is that value.\<close>

definition crack :: "(nat \<Rightarrow> real) \<Rightarrow> cracker \<Rightarrow> py_error + cracker" where
  "crack clk st =
     (let st0 = st\<lparr>start_time := Some (clk (clock_reads st)),
                   clock_reads := Suc (clock_reads st)\<rparr>
      in case length_loop clk st0 [1..max_length st0] of
           Inl e \<Rightarrow> Inl e
         | Inr st1 \<Rightarrow>
             Inr (st1\<lparr>end_time := Some (clk (clock_reads st1)),
                      clock_reads := Suc (clock_reads st1)\<rparr>))"

subsection \<open>\<open>generate_report\<close>\<close>










section \<open>Notions used to state the properties\<close>

text \<open>
  The candidates in the order \<open>crack\<close> generates them when nothing matches: all of
  length 1, then all of length 2, up to \<open>max_length\<close>.
\<close>

definition candidates :: "'a list \<Rightarrow> int \<Rightarrow> 'a list list" where
  "candidates pool m = concat (map (\<lambda>len. product_repeat pool (nat len)) [1..m])"

text \<open>The part of a candidate list that is tried against a target: everything before
  the first occurrence of the target, and that occurrence.\<close>

definition tried :: "'a \<Rightarrow> 'a list \<Rightarrow> 'a list" where
  "tried target gs = takeWhile (\<lambda>g. g \<noteq> target) gs @ (if target \<in> set gs then [target] else [])"


text \<open>A checkpoint whose rate is the guarded quotient of its attempts and its elapsed
  time.\<close>

definition rate_guarded :: "checkpoint \<Rightarrow> bool" where
  "rate_guarded c =
     (cp_rate c = (if 0 < cp_time c then of_int (cp_attempts c) / cp_time c else 0))"


section \<open>The enumeration\<close>

lemma length_product_repeat: "length (product_repeat pool n) = length pool ^ n"
  by (induction n) (simp_all add: length_concat comp_def sum_list_triv)

lemma product_repeat_elem_length:
  "xs \<in> set (product_repeat pool n) \<Longrightarrow> length xs = n"
  by (induction n arbitrary: xs) auto

lemma set_product_repeat:
  "set (product_repeat pool n) = {xs. length xs = n \<and> set xs \<subseteq> set pool}"
proof (induction n)
  case 0
  show ?case by auto
next
  case (Suc n)
  show ?case
  proof (intro set_eqI iffI)
    fix xs assume "xs \<in> set (product_repeat pool (Suc n))"
    then show "xs \<in> {xs. length xs = Suc n \<and> set xs \<subseteq> set pool}"
      using Suc.IH by auto
  next
    fix xs assume "xs \<in> {xs. length xs = Suc n \<and> set xs \<subseteq> set pool}"
    then have len: "length xs = Suc n" and sub: "set xs \<subseteq> set pool" by auto
    from len obtain ys y where xs: "xs = ys @ [y]"
      by (cases xs rule: rev_cases) auto
    with len sub have "ys \<in> set (product_repeat pool n)" "y \<in> set pool"
      using Suc.IH by auto
    with xs show "xs \<in> set (product_repeat pool (Suc n))" by auto
  qed
qed

lemma concat_map_nth:
  assumes "i < length xs * length ys"
  shows "concat (map (\<lambda>x. map (f x) ys) xs) ! i = f (xs ! (i div length ys)) (ys ! (i mod length ys))"
  using assms
proof (induction xs arbitrary: i)
  case Nil
  then show ?case by simp
next
  case (Cons x xs)
  have pos: "0 < length ys" using Cons.prems by (cases ys) auto
  show ?case
  proof (cases "i < length ys")
    case True
    then show ?thesis by (simp add: nth_append)
  next
    case False
    then have ge: "length ys \<le> i" by simp
    have lt: "i - length ys < length xs * length ys" using Cons.prems ge by simp
    have d: "i div length ys = Suc ((i - length ys) div length ys)"
      using ge pos by (simp add: le_div_geq)
    have m: "i mod length ys = (i - length ys) mod length ys"
      using ge by (simp add: le_mod_geq)
    show ?thesis using False Cons.IH[OF lt] by (simp add: nth_append d m)
  qed
qed

lemma product_repeat_nth_Suc:
  assumes "i < length pool ^ Suc n"
  shows "product_repeat pool (Suc n) ! i =
         product_repeat pool n ! (i div length pool) @ [pool ! (i mod length pool)]"
proof -
  have "i < length (product_repeat pool n) * length pool"
    using assms by (simp add: length_product_repeat mult.commute)
  then show ?thesis by (simp add: concat_map_nth)
qed

lemma product_repeat_digit:
  "i < length pool ^ n \<Longrightarrow> j < n \<Longrightarrow>
   product_repeat pool n ! i ! j = pool ! ((i div length pool ^ (n - 1 - j)) mod length pool)"
proof (induction n arbitrary: i j)
  case 0
  then show ?case by simp
next
  case (Suc n)
  let ?k = "length pool"
  have kpos: "0 < ?k" using Suc.prems(1) by (cases pool) auto
  have idiv: "i div ?k < ?k ^ n"
    using Suc.prems(1) kpos by (simp add: less_mult_imp_div_less mult.commute)
  have len: "length (product_repeat pool n ! (i div ?k)) = n"
    using idiv by (intro product_repeat_elem_length[of _ pool]) (simp add: length_product_repeat)
  show ?case
  proof (cases "j < n")
    case True
    have "product_repeat pool (Suc n) ! i ! j = product_repeat pool n ! (i div ?k) ! j"
      using Suc.prems(1) True len by (simp add: product_repeat_nth_Suc nth_append del: product_repeat.simps)
    also have "\<dots> = pool ! (((i div ?k) div ?k ^ (n - 1 - j)) mod ?k)"
      using Suc.IH[OF idiv True] .
    also have "(i div ?k) div ?k ^ (n - 1 - j) = i div ?k ^ (Suc n - 1 - j)"
    proof -
      have "Suc n - 1 - j = Suc (n - 1 - j)" using True by simp
      then show ?thesis by (simp add: div_mult2_eq)
    qed
    finally show ?thesis .
  next
    case False
    then have j: "j = n" using Suc.prems(2) by simp
    show ?thesis
      using Suc.prems(1) len by (simp add: product_repeat_nth_Suc nth_append j del: product_repeat.simps)
  qed
qed

section \<open>Candidates tried against a target\<close>

lemma tried_Nil: "tried t [] = []"
  by (simp add: tried_def)

lemma tried_Cons: "tried t (g # gs) = (if g = t then [g] else g # tried t gs)"
  by (simp add: tried_def)

lemma tried_absent: "t \<notin> set gs \<Longrightarrow> tried t gs = gs"
  by (induction gs) (auto simp: tried_Nil tried_Cons)

lemma tried_append:
  "tried t (xs @ ys) = (if t \<in> set xs then tried t xs else xs @ tried t ys)"
  by (induction xs) (simp_all add: tried_Nil tried_Cons)




lemma tried_last: "t \<in> set gs \<Longrightarrow> tried t gs \<noteq> [] \<and> last (tried t gs) = t"
  by (simp add: tried_def)

lemma candidates_nonpos: "m < 1 \<Longrightarrow> candidates pool m = []"
  by (simp add: candidates_def)

lemma candidates_one: "candidates pool 1 = product_repeat pool 1"
  by (simp add: candidates_def)


lemma candidates_elem:
  "xs \<in> set (candidates pool m) \<longleftrightarrow>
   1 \<le> length xs \<and> int (length xs) \<le> m \<and> xs \<in> set (product_repeat pool (length xs))"
proof
  assume "xs \<in> set (candidates pool m)"
  then obtain l where l: "1 \<le> l" "l \<le> m" "xs \<in> set (product_repeat pool (nat l))"
    by (auto simp: candidates_def)
  then have "length xs = nat l" by (simp add: product_repeat_elem_length)
  with l show "1 \<le> length xs \<and> int (length xs) \<le> m \<and> xs \<in> set (product_repeat pool (length xs))"
    by auto
next
  assume a: "1 \<le> length xs \<and> int (length xs) \<le> m \<and> xs \<in> set (product_repeat pool (length xs))"
  then have "int (length xs) \<in> set [1..m]" by simp
  moreover have "xs \<in> set (product_repeat pool (nat (int (length xs))))" using a by simp
  ultimately show "xs \<in> set (candidates pool m)"
    unfolding candidates_def set_concat set_map by blast
qed

lemma candidates_mem:
  "xs \<in> set (candidates pool m) \<longleftrightarrow>
   1 \<le> length xs \<and> int (length xs) \<le> m \<and> set xs \<subseteq> set pool"
  by (simp add: candidates_elem set_product_repeat)











section \<open>One attempt\<close>

lemma counter_get_fold_incr:
  "counter_get (fold (\<lambda>c m. counter_incr m c) g m) c = counter_get m c + int (count_list g c)"
  by (induction g arbitrary: m) (simp_all add: counter_incr_def counter_get_def)

lemma attempt_total:
  assumes "start_time st \<noteq> None"
  shows "\<exists>st1. attempt clk st g = Inr st1"
  using assms
  by (auto simp: attempt_def progress_update_def and_then_def py_truediv_def Let_def
      split: option.splits)

lemma attempt_frame:
  assumes "attempt clk st g = Inr st1"
  shows "password st1 = password st" and "max_length st1 = max_length st"
    and "charset st1 = charset st" and "verbose st1 = verbose st"
    and "start_time st1 = start_time st" and "end_time st1 = end_time st"
    and "found st1 = found st" and "cracked_password st1 = cracked_password st"
    and "length_attempts st1 = length_attempts st"
  using assms
  by (auto simp: attempt_def progress_update_def and_then_def py_truediv_def Let_def
      split: if_splits option.splits)

lemma attempt_attempts:
  assumes "attempt clk st g = Inr st1"
  shows "attempts st1 = attempts st + 1"
  using assms
  by (auto simp: attempt_def progress_update_def and_then_def py_truediv_def Let_def
      split: if_splits option.splits)

lemma attempt_hits:
  assumes "attempt clk st g = Inr st1"
  shows "counter_get (charset_hits st1) c = counter_get (charset_hits st) c + int (count_list g c)"
  using assms
  by (auto simp: attempt_def progress_update_def and_then_def py_truediv_def Let_def
      counter_get_fold_incr split: if_splits option.splits)

lemma attempt_checkpoints:
  assumes "attempt clk st g = Inr st1"
  shows "\<exists>new. time_checkpoints st1 = time_checkpoints st @ new \<and>
           list_all rate_guarded new \<and>
           map cp_attempts new =
             (if verbose st \<and> (attempts st + 1) mod 100000 = 0 then [attempts st + 1] else [])"
  using assms
  by (auto simp: attempt_def progress_update_def and_then_def py_truediv_def Let_def
      rate_guarded_def split: if_splits option.splits)



section \<open>The loop over the candidates of one length\<close>

lemma guess_loop_ConsE:
  assumes "guess_loop clk st (g # gs) = Inr st'"
  obtains st1 where "attempt clk st g = Inr st1" and "g = password st"
      and "st' = st1\<lparr>found := True, cracked_password := Some g\<rparr>"
    | st1 where "attempt clk st g = Inr st1" and "g \<noteq> password st"
      and "guess_loop clk st1 gs = Inr st'"
proof (cases "attempt clk st g")
  case (Inl e)
  with assms show ?thesis by simp
next
  case (Inr st1)
  then have "password st1 = password st" by (rule attempt_frame)
  with assms Inr that show ?thesis by (cases "g = password st") auto
qed

lemma guess_loop_total:
  "start_time st \<noteq> None \<Longrightarrow> \<exists>st'. guess_loop clk st gs = Inr st'"
proof (induction gs arbitrary: st)
  case Nil
  show ?case by simp
next
  case (Cons g gs)
  from attempt_total[OF Cons.prems] obtain st1 where a: "attempt clk st g = Inr st1" by blast
  then have "start_time st1 \<noteq> None" using Cons.prems by (simp add: attempt_frame)
  from Cons.IH[OF this] a show ?case by auto
qed

lemma guess_loop_frame:
  assumes "guess_loop clk st gs = Inr st'"
  shows "password st' = password st \<and> max_length st' = max_length st \<and>
         charset st' = charset st \<and> verbose st' = verbose st \<and>
         start_time st' = start_time st \<and> end_time st' = end_time st \<and>
         length_attempts st' = length_attempts st"
  using assms
proof (induction gs arbitrary: st)
  case Nil
  then show ?case by simp
next
  case (Cons g gs)
  from Cons.prems show ?case
  proof (cases rule: guess_loop_ConsE)
    case (1 st1)
    then show ?thesis by (simp add: attempt_frame)
  next
    case (2 st1)
    from Cons.IH[OF 2(3)] 2(1) show ?thesis by (simp add: attempt_frame)
  qed
qed

lemma guess_loop_attempts:
  assumes "guess_loop clk st gs = Inr st'"
  shows "attempts st' = attempts st + int (length (tried (password st) gs))"
  using assms
proof (induction gs arbitrary: st)
  case Nil
  then show ?case by (simp add: tried_Nil)
next
  case (Cons g gs)
  from Cons.prems show ?case
  proof (cases rule: guess_loop_ConsE)
    case (1 st1)
    then show ?thesis by (simp add: attempt_attempts tried_Cons)
  next
    case (2 st1)
    from Cons.IH[OF 2(3)] 2(1,2) show ?thesis
      by (simp add: attempt_attempts attempt_frame tried_Cons)
  qed
qed

lemma guess_loop_attempts_mono:
  "guess_loop clk st gs = Inr st' \<Longrightarrow> attempts st \<le> attempts st'"
  by (simp add: guess_loop_attempts)

lemma guess_loop_found:
  assumes "guess_loop clk st gs = Inr st'"
  shows "found st' = (found st \<or> password st \<in> set gs)"
    and "cracked_password st' =
         (if password st \<in> set gs then Some (password st) else cracked_password st)"
  using assms
proof (induction gs arbitrary: st)
  case Nil
  { case 1 then show ?case by simp }
  { case 2 then show ?case by simp }
next
  case (Cons g gs)
  { case 1
    from 1 show ?case
    proof (cases rule: guess_loop_ConsE)
      case (1 st1)
      then show ?thesis by simp
    next
      case (2 st1)
      from Cons.IH(1)[OF 2(3)] 2(1,2) show ?thesis by (auto simp: attempt_frame)
    qed }
  { case 2
    from 2 show ?case
    proof (cases rule: guess_loop_ConsE)
      case (1 st1)
      then show ?thesis by simp
    next
      case (2 st1)
      from Cons.IH(2)[OF 2(3)] 2(1,2) show ?thesis by (auto simp: attempt_frame)
    qed }
qed

lemma guess_loop_hits:
  assumes "guess_loop clk st gs = Inr st'"
  shows "counter_get (charset_hits st') c =
         counter_get (charset_hits st) c +
         (\<Sum>g\<leftarrow>tried (password st) gs. int (count_list g c))"
  using assms
proof (induction gs arbitrary: st)
  case Nil
  then show ?case by (simp add: tried_Nil)
next
  case (Cons g gs)
  from Cons.prems show ?case
  proof (cases rule: guess_loop_ConsE)
    case (1 st1)
    then show ?thesis by (simp add: attempt_hits tried_Cons)
  next
    case (2 st1)
    from Cons.IH[OF 2(3)] 2(1,2) show ?thesis
      by (simp add: attempt_hits attempt_frame tried_Cons)
  qed
qed

lemma guess_loop_hits_mono:
  "guess_loop clk st gs = Inr st' \<Longrightarrow>
   counter_get (charset_hits st) c \<le> counter_get (charset_hits st') c"
proof -
  assume "guess_loop clk st gs = Inr st'"
  from guess_loop_hits[OF this, of c]
  have h: "counter_get (charset_hits st') c =
         counter_get (charset_hits st) c +
         (\<Sum>g\<leftarrow>tried (password st) gs. int (count_list g c))" .
  have "0 \<le> (\<Sum>g\<leftarrow>tried (password st) gs. int (count_list g c))"
    by (rule sum_list_nonneg) auto
  with h show ?thesis by simp
qed

lemma guess_loop_checkpoints:
  assumes "guess_loop clk st gs = Inr st'"
  shows "\<exists>new. time_checkpoints st' = time_checkpoints st @ new \<and>
           list_all rate_guarded new \<and>
           map cp_attempts new =
             (if verbose st then filter (\<lambda>n. n mod 100000 = 0) [attempts st + 1..attempts st']
              else [])"
  using assms
proof (induction gs arbitrary: st)
  case Nil
  then show ?case by simp
next
  case (Cons g gs)
  from Cons.prems show ?case
  proof (cases rule: guess_loop_ConsE)
    case (1 st1)
    from attempt_checkpoints[OF 1(1)] obtain new where
      "time_checkpoints st1 = time_checkpoints st @ new" "list_all rate_guarded new"
      "map cp_attempts new =
         (if verbose st \<and> (attempts st + 1) mod 100000 = 0 then [attempts st + 1] else [])"
      by blast
    moreover have "attempts st' = attempts st + 1" using 1 by (simp add: attempt_attempts)
    ultimately show ?thesis using 1(3) by auto
  next
    case (2 st1)
    from attempt_checkpoints[OF 2(1)] obtain new1 where n1:
      "time_checkpoints st1 = time_checkpoints st @ new1" "list_all rate_guarded new1"
      "map cp_attempts new1 =
         (if verbose st \<and> (attempts st + 1) mod 100000 = 0 then [attempts st + 1] else [])"
      by blast
    from Cons.IH[OF 2(3)] obtain new2 where n2:
      "time_checkpoints st' = time_checkpoints st1 @ new2" "list_all rate_guarded new2"
      "map cp_attempts new2 =
         (if verbose st1 then filter (\<lambda>n. n mod 100000 = 0) [attempts st1 + 1..attempts st']
          else [])"
      by blast
    have a1: "attempts st1 = attempts st + 1" using 2(1) by (rule attempt_attempts)
    have v1: "verbose st1 = verbose st" using 2(1) by (rule attempt_frame)
    have "attempts st1 \<le> attempts st'" using guess_loop_attempts[OF 2(3)] by simp
    then have up: "[attempts st + 1..attempts st'] = (attempts st + 1) # [attempts st1 + 1..attempts st']"
      using a1 by (simp add: upto_rec1)
    have "time_checkpoints st' = time_checkpoints st @ (new1 @ new2)"
      using n1(1) n2(1) by simp
    moreover have "list_all rate_guarded (new1 @ new2)" using n1(2) n2(2) by simp
    moreover have "map cp_attempts (new1 @ new2) =
        (if verbose st then filter (\<lambda>n. n mod 100000 = 0) [attempts st + 1..attempts st'] else [])"
      using n1(3) n2(3) v1 by (simp add: up)
    ultimately show ?thesis by blast
  qed
qed



section \<open>The loop over the lengths\<close>

lemma length_loop_ConsE:
  assumes "length_loop clk st (l # ls) = Inr st'"
  obtains st1 where "0 \<le> l"
      and "guess_loop clk st (product_repeat (charset st) (nat l)) = Inr st1"
      and "found st1"
      and "st' = st1\<lparr>length_attempts :=
                   AList.update l (attempts st1 - attempts st) (length_attempts st1)\<rparr>"
    | st1 where "0 \<le> l"
      and "guess_loop clk st (product_repeat (charset st) (nat l)) = Inr st1"
      and "\<not> found st1"
      and "length_loop clk
             (st1\<lparr>length_attempts :=
                   AList.update l (attempts st1 - attempts st) (length_attempts st1)\<rparr>) ls = Inr st'"
proof (cases "l < 0")
  case True
  with assms show ?thesis by (simp add: itertools_product_def and_then_def)
next
  case False
  show ?thesis
  proof (cases "guess_loop clk st (product_repeat (charset st) (nat l))")
    case (Inl e)
    with assms False show ?thesis by (simp add: itertools_product_def and_then_def)
  next
    case (Inr st1)
    with assms False that show ?thesis
      by (cases "found st1") (auto simp: itertools_product_def and_then_def Let_def)
  qed
qed

lemma length_loop_total:
  "start_time st \<noteq> None \<Longrightarrow> \<forall>l\<in>set ls. 0 \<le> l \<Longrightarrow> \<exists>st'. length_loop clk st ls = Inr st'"
proof (induction ls arbitrary: st)
  case Nil
  show ?case by simp
next
  case (Cons l ls)
  from guess_loop_total[OF Cons.prems(1)] obtain st1 where
    g: "guess_loop clk st (product_repeat (charset st) (nat l)) = Inr st1" by blast
  let ?st2 = "st1\<lparr>length_attempts :=
                   AList.update l (attempts st1 - attempts st) (length_attempts st1)\<rparr>"
  have "start_time ?st2 \<noteq> None" using guess_loop_frame[OF g] Cons.prems(1) by simp
  from Cons.IH[OF this] Cons.prems(2) obtain st' where "length_loop clk ?st2 ls = Inr st'"
    by auto
  with g Cons.prems(2) show ?case
    by (auto simp: itertools_product_def and_then_def Let_def)
qed

lemma length_loop_frame:
  assumes "length_loop clk st ls = Inr st'"
  shows "password st' = password st \<and> max_length st' = max_length st \<and>
         charset st' = charset st \<and> verbose st' = verbose st \<and>
         start_time st' = start_time st \<and> end_time st' = end_time st"
  using assms
proof (induction ls arbitrary: st)
  case Nil
  then show ?case by simp
next
  case (Cons l ls)
  from Cons.prems show ?case
  proof (cases rule: length_loop_ConsE)
    case (1 st1)
    with guess_loop_frame[OF 1(2)] show ?thesis by simp
  next
    case (2 st1)
    from Cons.IH[OF 2(4)] guess_loop_frame[OF 2(2)] show ?thesis by simp
  qed
qed

lemma length_loop_attempts:
  assumes "length_loop clk st ls = Inr st'" and "\<not> found st"
  shows "attempts st' = attempts st +
           int (length (tried (password st)
                  (concat (map (\<lambda>l. product_repeat (charset st) (nat l)) ls))))"
  using assms
proof (induction ls arbitrary: st)
  case Nil
  then show ?case by (simp add: tried_Nil)
next
  case (Cons l ls)
  from Cons.prems(1) show ?case
  proof (cases rule: length_loop_ConsE)
    case (1 st1)
    from guess_loop_found(1)[OF 1(2)] 1(3) Cons.prems(2)
    have "password st \<in> set (product_repeat (charset st) (nat l))" by simp
    with guess_loop_attempts[OF 1(2)] 1(4) show ?thesis by (simp add: tried_append)
  next
    case (2 st1)
    let ?st2 = "st1\<lparr>length_attempts :=
                   AList.update l (attempts st1 - attempts st) (length_attempts st1)\<rparr>"
    from guess_loop_found(1)[OF 2(2)] 2(3)
    have notin: "password st \<notin> set (product_repeat (charset st) (nat l))" by simp
    have "\<not> found ?st2" using 2(3) by simp
    from Cons.IH[OF 2(4) this] guess_loop_frame[OF 2(2)] guess_loop_attempts[OF 2(2)] notin
    show ?thesis by (simp add: tried_append tried_absent)
  qed
qed

lemma length_loop_attempts_mono:
  "length_loop clk st ls = Inr st' \<Longrightarrow> attempts st \<le> attempts st'"
proof (induction ls arbitrary: st)
  case Nil
  then show ?case by simp
next
  case (Cons l ls)
  from Cons.prems show ?case
  proof (cases rule: length_loop_ConsE)
    case (1 st1)
    with guess_loop_attempts_mono[OF 1(2)] show ?thesis by simp
  next
    case (2 st1)
    from Cons.IH[OF 2(4)] guess_loop_attempts_mono[OF 2(2)] show ?thesis by simp
  qed
qed

lemma length_loop_found:
  assumes "length_loop clk st ls = Inr st'" and "\<not> found st"
  shows "found st' =
           (password st \<in> set (concat (map (\<lambda>l. product_repeat (charset st) (nat l)) ls))) \<and>
         cracked_password st' =
           (if password st \<in> set (concat (map (\<lambda>l. product_repeat (charset st) (nat l)) ls))
            then Some (password st) else cracked_password st)"
  using assms
proof (induction ls arbitrary: st)
  case Nil
  then show ?case by simp
next
  case (Cons l ls)
  from Cons.prems(1) show ?case
  proof (cases rule: length_loop_ConsE)
    case (1 st1)
    from guess_loop_found[OF 1(2)] 1(3) Cons.prems(2) 1(4) show ?thesis by simp
  next
    case (2 st1)
    let ?st2 = "st1\<lparr>length_attempts :=
                   AList.update l (attempts st1 - attempts st) (length_attempts st1)\<rparr>"
    have nf: "\<not> found ?st2" using 2(3) by simp
    from Cons.IH[OF 2(4) nf] guess_loop_found[OF 2(2)] 2(3) guess_loop_frame[OF 2(2)]
    show ?thesis by simp
  qed
qed

lemma length_loop_hits:
  assumes "length_loop clk st ls = Inr st'" and "\<not> found st"
  shows "counter_get (charset_hits st') c =
         counter_get (charset_hits st) c +
         (\<Sum>g\<leftarrow>tried (password st)
              (concat (map (\<lambda>l. product_repeat (charset st) (nat l)) ls)). int (count_list g c))"
  using assms
proof (induction ls arbitrary: st)
  case Nil
  then show ?case by (simp add: tried_Nil)
next
  case (Cons l ls)
  from Cons.prems(1) show ?case
  proof (cases rule: length_loop_ConsE)
    case (1 st1)
    from guess_loop_found(1)[OF 1(2)] 1(3) Cons.prems(2)
    have "password st \<in> set (product_repeat (charset st) (nat l))" by simp
    with guess_loop_hits[OF 1(2)] 1(4) show ?thesis by (simp add: tried_append)
  next
    case (2 st1)
    let ?st2 = "st1\<lparr>length_attempts :=
                   AList.update l (attempts st1 - attempts st) (length_attempts st1)\<rparr>"
    from guess_loop_found(1)[OF 2(2)] 2(3)
    have notin: "password st \<notin> set (product_repeat (charset st) (nat l))" by simp
    have "\<not> found ?st2" using 2(3) by simp
    from Cons.IH[OF 2(4) this] guess_loop_frame[OF 2(2)] guess_loop_hits[OF 2(2), of c] notin
    show ?thesis by (simp add: tried_append tried_absent)
  qed
qed

lemma length_loop_mono:
  assumes "length_loop clk st ls = Inr st'"
  shows "counter_get (charset_hits st) c \<le> counter_get (charset_hits st') c \<and>
         (found st \<longrightarrow> found st' \<and> cracked_password st' = cracked_password st \<or>
            found st' \<and> cracked_password st' = Some (password st))"
  using assms
proof (induction ls arbitrary: st)
  case Nil
  then show ?case by simp
next
  case (Cons l ls)
  from Cons.prems show ?case
  proof (cases rule: length_loop_ConsE)
    case (1 st1)
    with guess_loop_hits_mono[OF 1(2), of c] guess_loop_found[OF 1(2)] show ?thesis by simp
  next
    case (2 st1)
    from Cons.IH[OF 2(4)] guess_loop_hits_mono[OF 2(2), of c] guess_loop_found[OF 2(2)] 2(3)
    show ?thesis by auto
  qed
qed

lemma length_loop_found_start:
  assumes "length_loop clk st (l # ls) = Inr st'" and "found st"
  shows "attempts st' = attempts st +
           int (length (tried (password st) (product_repeat (charset st) (nat l)))) \<and>
         counter_get (charset_hits st') c = counter_get (charset_hits st) c +
           (\<Sum>g\<leftarrow>tried (password st) (product_repeat (charset st) (nat l)).
              int (count_list g c))"
  using assms(1)
proof (cases rule: length_loop_ConsE)
  case (1 st1)
  from guess_loop_attempts[OF 1(2)] guess_loop_hits[OF 1(2), of c] 1(4) show ?thesis by simp
next
  case (2 st1)
  from guess_loop_found(1)[OF 2(2)] assms(2) 2(3) show ?thesis by simp
qed

lemma filter_upto_append:
  fixes a b c :: int
  assumes "a \<le> b" "b \<le> c"
  shows "filter P [a + 1..b] @ filter P [b + 1..c] = filter P [a + 1..c]"
proof -
  have "[a + 1..c] = [a + 1..b] @ [b + 1..c]"
  proof (cases "a = b")
    case True
    then show ?thesis by simp
  next
    case False
    then have "a + 1 \<le> b" using assms(1) by simp
    then show ?thesis using assms(2) by (rule upto_split2)
  qed
  then show ?thesis by simp
qed

lemma length_loop_checkpoints:
  assumes "length_loop clk st ls = Inr st'"
  shows "\<exists>new. time_checkpoints st' = time_checkpoints st @ new \<and>
           list_all rate_guarded new \<and>
           map cp_attempts new =
             (if verbose st then filter (\<lambda>n. n mod 100000 = 0) [attempts st + 1..attempts st']
              else [])"
  using assms
proof (induction ls arbitrary: st)
  case Nil
  then show ?case by simp
next
  case (Cons l ls)
  from Cons.prems show ?case
  proof (cases rule: length_loop_ConsE)
    case (1 st1)
    from guess_loop_checkpoints[OF 1(2)] obtain new where
      "time_checkpoints st1 = time_checkpoints st @ new" "list_all rate_guarded new"
      "map cp_attempts new =
         (if verbose st then filter (\<lambda>n. n mod 100000 = 0) [attempts st + 1..attempts st1]
          else [])"
      by blast
    then have "time_checkpoints st' = time_checkpoints st @ new \<and> list_all rate_guarded new \<and>
      map cp_attempts new =
         (if verbose st then filter (\<lambda>n. n mod 100000 = 0) [attempts st + 1..attempts st']
          else [])"
      using 1(4) by simp
    then show ?thesis by blast
  next
    case (2 st1)
    let ?st2 = "st1\<lparr>length_attempts :=
                   AList.update l (attempts st1 - attempts st) (length_attempts st1)\<rparr>"
    from guess_loop_checkpoints[OF 2(2)] obtain new1 where n1:
      "time_checkpoints st1 = time_checkpoints st @ new1" "list_all rate_guarded new1"
      "map cp_attempts new1 =
         (if verbose st then filter (\<lambda>n. n mod 100000 = 0) [attempts st + 1..attempts st1]
          else [])"
      by blast
    from Cons.IH[OF 2(4)] obtain new2 where n2:
      "time_checkpoints st' = time_checkpoints st1 @ new2" "list_all rate_guarded new2"
      "map cp_attempts new2 =
         (if verbose st1 then filter (\<lambda>n. n mod 100000 = 0) [attempts st1 + 1..attempts st']
          else [])"
      by auto
    have v1: "verbose st1 = verbose st" using guess_loop_frame[OF 2(2)] by simp
    have le1: "attempts st \<le> attempts st1" using 2(2) by (rule guess_loop_attempts_mono)
    have le2: "attempts st1 \<le> attempts st'"
      using length_loop_attempts_mono[OF 2(4)] by simp
    have "time_checkpoints st' = time_checkpoints st @ (new1 @ new2)"
      using n1(1) n2(1) by simp
    moreover have "list_all rate_guarded (new1 @ new2)" using n1(2) n2(2) by simp
    moreover have "map cp_attempts (new1 @ new2) =
        (if verbose st then filter (\<lambda>n. n mod 100000 = 0) [attempts st + 1..attempts st'] else [])"
      using n1(3) n2(3) v1 filter_upto_append[OF le1 le2] by simp
    ultimately show ?thesis by blast
  qed
qed





lemma length_loop_keys:
  assumes "length_loop clk st ls = Inr st'"
  shows "fst ` set (length_attempts st) \<subseteq> fst ` set (length_attempts st')"
  using assms
proof (induction ls arbitrary: st)
  case Nil
  then show ?case by simp
next
  case (Cons l ls)
  from Cons.prems show ?case
  proof (cases rule: length_loop_ConsE)
    case (1 st1)
    with guess_loop_frame[OF 1(2)] show ?thesis by (auto simp: dom_update)
  next
    case (2 st1)
    from Cons.IH[OF 2(4)] guess_loop_frame[OF 2(2)] show ?thesis
      by (auto simp: dom_update)
  qed
qed

section \<open>The whole of crack\<close>

lemma crack_E:
  assumes "crack clk st = Inr st'"
  obtains st1 where
    "length_loop clk (st\<lparr>start_time := Some (clk (clock_reads st)),
                         clock_reads := Suc (clock_reads st)\<rparr>) [1..max_length st] = Inr st1"
    and "st' = st1\<lparr>end_time := Some (clk (clock_reads st1)),
                   clock_reads := Suc (clock_reads st1)\<rparr>"
  using assms by (auto simp: crack_def Let_def split: sum.splits)

lemma crack_total: "\<exists>st'. crack clk st = Inr st'"
proof -
  let ?st0 = "st\<lparr>start_time := Some (clk (clock_reads st)),
                 clock_reads := Suc (clock_reads st)\<rparr>"
  have "start_time ?st0 \<noteq> None" by simp
  moreover have "\<forall>l\<in>set [1..max_length st]. 0 \<le> l" by simp
  ultimately obtain st1 where "length_loop clk ?st0 [1..max_length st] = Inr st1"
    using length_loop_total by blast
  then show ?thesis by (simp add: crack_def Let_def)
qed

lemma crack_frame:
  assumes "crack clk st = Inr st'"
  shows "password st' = password st \<and> max_length st' = max_length st \<and>
         charset st' = charset st \<and> verbose st' = verbose st \<and>
         start_time st' = Some (clk (clock_reads st)) \<and> end_time st' \<noteq> None"
  using assms
proof (cases rule: crack_E)
  case (1 st1)
  from length_loop_frame[OF 1(1)] 1(2) show ?thesis by simp
qed

lemma crack_attempts:
  assumes "crack clk st = Inr st'" and "\<not> found st"
  shows "attempts st' = attempts st +
           int (length (tried (password st) (candidates (charset st) (max_length st))))"
  using assms(1)
proof (cases rule: crack_E)
  case (1 st1)
  from length_loop_attempts[OF 1(1)] assms(2) 1(2) show ?thesis
    by (simp add: candidates_def)
qed

lemma crack_found:
  assumes "crack clk st = Inr st'" and "\<not> found st"
  shows "found st' = (password st \<in> set (candidates (charset st) (max_length st))) \<and>
         cracked_password st' =
           (if password st \<in> set (candidates (charset st) (max_length st))
            then Some (password st) else cracked_password st)"
  using assms(1)
proof (cases rule: crack_E)
  case (1 st1)
  from length_loop_found[OF 1(1)] assms(2) 1(2) show ?thesis
    by (simp add: candidates_def)
qed

lemma crack_hits:
  assumes "crack clk st = Inr st'" and "\<not> found st"
  shows "counter_get (charset_hits st') c =
         counter_get (charset_hits st) c +
         (\<Sum>g\<leftarrow>tried (password st) (candidates (charset st) (max_length st)).
            int (count_list g c))"
  using assms(1)
proof (cases rule: crack_E)
  case (1 st1)
  from length_loop_hits[OF 1(1), of c] assms(2) 1(2) show ?thesis
    by (simp add: candidates_def)
qed

lemma crack_after_found:
  assumes "crack clk st = Inr st'" and "found st"
  shows "attempts st' = attempts st +
           int (length (tried (password st) (candidates (charset st) (min 1 (max_length st))))) \<and>
         counter_get (charset_hits st') c = counter_get (charset_hits st) c +
           (\<Sum>g\<leftarrow>tried (password st) (candidates (charset st) (min 1 (max_length st))).
              int (count_list g c))"
  using assms(1)
proof (cases rule: crack_E)
  case (1 st1)
  let ?st0 = "st\<lparr>start_time := Some (clk (clock_reads st)),
                 clock_reads := Suc (clock_reads st)\<rparr>"
  show ?thesis
  proof (cases "1 \<le> max_length st")
    case True
    then have "[1..max_length st] = 1 # [2..max_length st]" by (simp add: upto_rec1)
    with 1(1) have "length_loop clk ?st0 (1 # [2..max_length st]) = Inr st1" by simp
    from length_loop_found_start[OF this, of c] assms(2) 1(2) True show ?thesis
      by (simp add: candidates_one min_def)
  next
    case False
    then have "[1..max_length st] = []" by simp
    with 1(1) have "st1 = ?st0" by simp
    with 1(2) have "attempts st' = attempts st" "charset_hits st' = charset_hits st" by simp_all
    moreover have "candidates (charset st) (min 1 (max_length st)) = []"
      using False by (simp add: candidates_nonpos min_def)
    ultimately show ?thesis by (simp add: tried_Nil)
  qed
qed

lemma crack_checkpoints:
  assumes "crack clk st = Inr st'"
  shows "\<exists>new. time_checkpoints st' = time_checkpoints st @ new \<and>
           list_all rate_guarded new \<and>
           map cp_attempts new =
             (if verbose st then filter (\<lambda>n. n mod 100000 = 0) [attempts st + 1..attempts st']
              else [])"
  using assms
proof (cases rule: crack_E)
  case (1 st1)
  from length_loop_checkpoints[OF 1(1)] obtain new where
    "time_checkpoints st1 = time_checkpoints st @ new" "list_all rate_guarded new"
    "map cp_attempts new =
       (if verbose st then filter (\<lambda>n. n mod 100000 = 0) [attempts st + 1..attempts st1]
        else [])"
    by auto
  then have "time_checkpoints st' = time_checkpoints st @ new \<and> list_all rate_guarded new \<and>
    map cp_attempts new =
       (if verbose st then filter (\<lambda>n. n mod 100000 = 0) [attempts st + 1..attempts st']
        else [])"
    using 1(2) by simp
  then show ?thesis by blast
qed


lemma crack_mono:
  assumes "crack clk st = Inr st'"
  shows "attempts st \<le> attempts st' \<and>
         counter_get (charset_hits st) c \<le> counter_get (charset_hits st') c \<and>
         (found st \<longrightarrow> found st' \<and> cracked_password st' = cracked_password st \<or>
            found st' \<and> cracked_password st' = Some (password st))"
  using assms
proof (cases rule: crack_E)
  case (1 st1)
  from length_loop_attempts_mono[OF 1(1)] length_loop_mono[OF 1(1), of c] 1(2)
  show ?thesis by simp
qed



lemma crack_keys:
  assumes "crack clk st = Inr st'"
  shows "fst ` set (length_attempts st) \<subseteq> fst ` set (length_attempts st')"
  using assms
proof (cases rule: crack_E)
  case (1 st1)
  from length_loop_keys[OF 1(1)] 1(2) show ?thesis by simp
qed

section \<open>New instances and reachable instances\<close>

lemma default_charset_length: "length default_charset = 94"
  by (simp add: default_charset_def ascii_letters_def ascii_lowercase_def ascii_uppercase_def
      digits_def punctuation_def)

lemma init_fields:
  "password (init pw m cs vb) = pw" "max_length (init pw m cs vb) = m"
  "verbose (init pw m cs vb) = vb" "attempts (init pw m cs vb) = 0"
  "start_time (init pw m cs vb) = None" "end_time (init pw m cs vb) = None"
  "found (init pw m cs vb) = False" "cracked_password (init pw m cs vb) = None"
  "length_attempts (init pw m cs vb) = []" "charset_hits (init pw m cs vb) = Map.empty"
  "time_checkpoints (init pw m cs vb) = []"
  by (simp_all add: init_def)

lemma init_charset_nonempty: "charset (init pw m cs vb) \<noteq> []"
proof -
  have "default_charset \<noteq> []" using default_charset_length by auto
  then show ?thesis by (simp add: init_def split: option.splits)
qed


section \<open>Rounding and reports\<close>









section \<open>The claims\<close>

text \<open>
  C1, the claim as stated fails: for alphabet \<open>ab\<close>, target \<open>ba\<close> and \<open>max_length\<close> 2
  the run reports found, the match \<open>ba\<close>, and 5 attempts, not 4.
\<close>

theorem crack_ab_ba_attempts_not_4:
  "map_sum id (\<lambda>s. (found s, cracked_password s, attempts s))
     (crack real (init ''ba'' 2 (Some ''ab'') True)) = Inr (True, Some ''ba'', 5) \<and>
   map_sum id attempts (crack real (init ''ba'' 2 (Some ''ab'') True)) \<noteq> Inr 4"
  by code_simp

text \<open>
  C1, amended. With \<open>A\<close> the alphabet in use and \<open>k\<close> its size: the candidates of
  length \<open>L\<close> are generated in base-\<open>k\<close> counting order (there are \<open>k^L\<close> of them, and
  candidate number \<open>i\<close> has at position \<open>j\<close> the symbol of \<open>A\<close> with index
  \<open>(i div k^(L-1-j)) mod k\<close>, the leftmost position being the most significant);
  \<open>crack\<close> on a new instance goes through the lengths 1 to \<open>max_length\<close> in turn and
  stops at the first candidate equal to the target, so \<open>found\<close> says whether the target
  is among the candidates, and \<open>attempts\<close> is the number of candidates up to and
  including the first match. For alphabet \<open>ab\<close>, target \<open>ba\<close>, \<open>max_length\<close> 2 the
  candidates tried are \<open>a, b, aa, ab, ba\<close>: found, match \<open>ba\<close>, 5 attempts.
\<close>

theorem crack_enumeration_order:
  "(let A = charset (init pw m cs vb); k = length A
    in length (product_repeat A L) = k ^ L \<and>
       (\<forall>i j. i < k ^ L \<and> j < L \<longrightarrow>
          length (product_repeat A L ! i) = L \<and>
          product_repeat A L ! i ! j = A ! ((i div k ^ (L - 1 - j)) mod k)) \<and>
       (\<exists>st'. crack clk (init pw m cs vb) = Inr st' \<and>
          found st' = (pw \<in> set (candidates A m)) \<and>
          found st' = (1 \<le> length pw \<and> int (length pw) \<le> m \<and> set pw \<subseteq> set A) \<and>
          cracked_password st' = (if found st' then Some pw else None) \<and>
          attempts st' = int (length (tried pw (candidates A m))))) \<and>
   tried ''ba'' (candidates ''ab'' 2) = [''a'', ''b'', ''aa'', ''ab'', ''ba''] \<and>
   (\<exists>st'. crack clk (init ''ba'' 2 (Some ''ab'') vb) = Inr st' \<and>
      found st' \<and> cracked_password st' = Some ''ba'' \<and> attempts st' = 5)"
proof -
  have run: "\<exists>st'. crack clk (init p n c vb) = Inr st' \<and>
          found st' = (p \<in> set (candidates (charset (init p n c vb)) n)) \<and>
          found st' = (1 \<le> length p \<and> int (length p) \<le> n \<and>
                       set p \<subseteq> set (charset (init p n c vb))) \<and>
          cracked_password st' = (if found st' then Some p else None) \<and>
          attempts st' = int (length (tried p (candidates (charset (init p n c vb)) n)))"
    for p n c
  proof -
    let ?st = "init p n c vb"
    obtain st' where r: "crack clk ?st = Inr st'" using crack_total by blast
    have nf: "\<not> found ?st" by (simp add: init_fields)
    have "attempts st' = int (length (tried p (candidates (charset ?st) n)))"
      using crack_attempts[OF r nf] by (simp add: init_fields)
    moreover have f: "found st' = (p \<in> set (candidates (charset ?st) n))"
      using crack_found[OF r nf] by (simp add: init_fields)
    moreover have "cracked_password st' = (if found st' then Some p else None)"
      using crack_found[OF r nf] by (simp add: init_fields)
    moreover have "found st' = (1 \<le> length p \<and> int (length p) \<le> n \<and>
                       set p \<subseteq> set (charset ?st))"
      using f by (simp only: candidates_mem)
    ultimately show ?thesis using r by blast
  qed
  let ?A = "charset (init pw m cs vb)"
  have order: "\<forall>i j. i < length ?A ^ L \<and> j < L \<longrightarrow>
          length (product_repeat ?A L ! i) = L \<and>
          product_repeat ?A L ! i ! j = ?A ! ((i div length ?A ^ (L - 1 - j)) mod length ?A)"
  proof (intro allI impI)
    fix i j assume a: "i < length ?A ^ L \<and> j < L"
    then have "product_repeat ?A L ! i \<in> set (product_repeat ?A L)"
      by (simp add: length_product_repeat)
    then have "length (product_repeat ?A L ! i) = L" by (rule product_repeat_elem_length)
    with a show "length (product_repeat ?A L ! i) = L \<and>
          product_repeat ?A L ! i ! j = ?A ! ((i div length ?A ^ (L - 1 - j)) mod length ?A)"
      by (simp add: product_repeat_digit)
  qed
  have ex: "tried ''ba'' (candidates ''ab'' 2) = [''a'', ''b'', ''aa'', ''ab'', ''ba'']"
    by code_simp
  have c: "charset (init ''ba'' 2 (Some ''ab'') vb) = ''ab''" by (simp add: init_def)
  have "\<exists>st'. crack clk (init ''ba'' 2 (Some ''ab'') vb) = Inr st' \<and>
      found st' \<and> cracked_password st' = Some ''ba'' \<and> attempts st' = 5"
    using run[of "''ba''" 2 "Some ''ab''"] by (auto simp: c ex)
  with run[of pw m cs] order ex show ?thesis
    by (simp only: Let_def length_product_repeat)
qed

theorem crack_enumeration_order_witness:
  "(2::nat) < length ''ab'' ^ 2 \<and> (0::nat) < 2 \<and>
   product_repeat ''ab'' 2 ! 2 ! 0 = ''ab'' ! ((2 div length ''ab'' ^ (2 - 1 - 0)) mod length ''ab'') \<and>
   ''ab'' ! ((2 div length ''ab'' ^ (2 - 1 - 0)) mod length ''ab'') = CHR ''b'' \<and>
   (\<exists>st'. crack real (init ''ba'' 2 (Some ''ab'') True) = Inr st' \<and> attempts st' = 5)"
proof -
  have c: "charset (init ''ba'' 2 (Some ''ab'') True) = ''ab''" by (simp add: init_def)
  have "(2::nat) < length ''ab'' ^ 2 \<and> (0::nat) < 2" by code_simp
  moreover have "''ab'' ! ((2 div length ''ab'' ^ (2 - 1 - 0)) mod length ''ab'') = CHR ''b''"
    by code_simp
  ultimately show ?thesis
    using crack_enumeration_order [of "''ba''" 2 "Some ''ab''" True 2 real]
    unfolding Let_def c by blast
qed




text \<open>
  C3, the claim as stated fails: the constructor returns an instance for an empty
  alphabet, for a non-positive maximal length and for an empty target alike.
\<close>

theorem constructor_accepts_invalid_config:
  "PasswordCracker ''abc'' 6 (Some []) True = Inr (init ''abc'' 6 (Some []) True) \<and>
   PasswordCracker ''abc'' 0 (Some ''ab'') True = Inr (init ''abc'' 0 (Some ''ab'') True) \<and>
   PasswordCracker [] 6 (Some ''ab'') True = Inr (init [] 6 (Some ''ab'') True) \<and>
   charset (init ''abc'' 6 (Some []) True) = default_charset \<and>
   max_length (init ''abc'' 0 (Some ''ab'') True) = 0 \<and>
   password (init [] 6 (Some ''ab'') True) = []"
  by (simp add: PasswordCracker_def init_def)

text \<open>
  C3, amended. The constructor checks nothing and raises nothing: for every target,
  maximal length and charset argument (an empty target, a non-positive maximal length
  and an empty alphabet included) it returns an instance that stores the target and the
  maximal length as given, a non-empty alphabet, and counters at zero: no attempt has
  been made. A later \<open>crack\<close> on the instance returns normally as well.
\<close>

theorem constructor_never_raises:
  "PasswordCracker pw m cs vb = Inr (init pw m cs vb) \<and>
   password (init pw m cs vb) = pw \<and> max_length (init pw m cs vb) = m \<and>
   charset (init pw m cs vb) \<noteq> [] \<and>
   attempts (init pw m cs vb) = 0 \<and> found (init pw m cs vb) = False \<and>
   cracked_password (init pw m cs vb) = None \<and> length_attempts (init pw m cs vb) = [] \<and>
   charset_hits (init pw m cs vb) = Map.empty \<and> time_checkpoints (init pw m cs vb) = [] \<and>
   start_time (init pw m cs vb) = None \<and> end_time (init pw m cs vb) = None \<and>
   (\<exists>st'. crack clk (init pw m cs vb) = Inr st')"
  using crack_total [of clk "init pw m cs vb"] init_charset_nonempty [of pw m cs vb]
  by (simp add: PasswordCracker_def init_fields)




text \<open>
  C5, the claim as stated fails: a second \<open>crack\<close> on the instance of the example
  (alphabet \<open>ab\<close>, target \<open>ba\<close>) starts from the 5 attempts and the set \<open>found\<close> flag of
  the first run; it ends after the two candidates of length 1, at 7 attempts.
\<close>

theorem second_crack_starts_from_old_counters:
  "map_sum id (\<lambda>s. (attempts s, found s, cracked_password s, length_attempts s))
     (crack real (init ''ba'' 2 (Some ''ab'') True)) =
     Inr (5, True, Some ''ba'', [(1, 2), (2, 3)]) \<and>
   map_sum id (\<lambda>s. (attempts s, found s, cracked_password s, length_attempts s,
                    counter_get (charset_hits s) CHR ''a''))
     (and_then (crack real (init ''ba'' 2 (Some ''ab'') True)) (crack real)) =
     Inr (7, True, Some ''ba'', [(1, 2), (2, 3)], 6)"
  by code_simp

text \<open>
  C5, amended. Every call of \<open>crack\<close>, on any instance, returns normally and records a
  new start timestamp, the reading of the clock at the call. It resets nothing: the
  attempts counter and every per-character hit count end at their values before the call
  plus what the candidates tried in this call add (those of all lengths up to the first
  match when \<open>found\<close> was not set; those of length 1 only when it was, the flag left
  by the earlier run ending the loop over the lengths); the checkpoints recorded before
  are kept and new ones appended, every length with a recorded count keeps an entry, and
  a \<open>found\<close> flag that was set stays set, with a matched string.
\<close>

theorem crack_resets_only_start_time:
  "\<exists>st'. crack clk st = Inr st' \<and>
     start_time st' = Some (clk (clock_reads st)) \<and>
     attempts st' = attempts st +
       int (length (tried (password st) (candidates (charset st)
              (if found st then min 1 (max_length st) else max_length st)))) \<and>
     counter_get (charset_hits st') c = counter_get (charset_hits st) c +
       (\<Sum>g\<leftarrow>tried (password st) (candidates (charset st)
              (if found st then min 1 (max_length st) else max_length st)).
          int (count_list g c)) \<and>
     (\<exists>new. time_checkpoints st' = time_checkpoints st @ new) \<and>
     fst ` set (length_attempts st) \<subseteq> fst ` set (length_attempts st') \<and>
     (found st \<longrightarrow> found st' \<and>
        (cracked_password st' = cracked_password st \<or>
         cracked_password st' = Some (password st)))"
proof -
  obtain st' where r: "crack clk st = Inr st'" using crack_total by blast
  have "start_time st' = Some (clk (clock_reads st))" using crack_frame[OF r] by simp
  moreover have "attempts st' = attempts st +
       int (length (tried (password st) (candidates (charset st)
              (if found st then min 1 (max_length st) else max_length st))))"
    using crack_attempts[OF r] crack_after_found[OF r, of c] by (cases "found st") simp_all
  moreover have "counter_get (charset_hits st') c = counter_get (charset_hits st) c +
       (\<Sum>g\<leftarrow>tried (password st) (candidates (charset st)
              (if found st then min 1 (max_length st) else max_length st)).
          int (count_list g c))"
    using crack_hits[OF r, of c] crack_after_found[OF r, of c] by (cases "found st") simp_all
  moreover have "found st \<longrightarrow> found st' \<and>
        (cracked_password st' = cracked_password st \<or>
         cracked_password st' = Some (password st))"
    using crack_mono[OF r, of c] by auto
  moreover have "\<exists>new. time_checkpoints st' = time_checkpoints st @ new"
    using crack_checkpoints[OF r] by blast
  moreover have "fst ` set (length_attempts st) \<subseteq> fst ` set (length_attempts st')"
    using r by (rule crack_keys)
  ultimately show ?thesis using r by blast
qed

theorem crack_resets_only_start_time_witness:
  "\<exists>st st'. crack real (init ''ba'' 2 (Some ''ab'') True) = Inr st \<and> found st \<and>
     attempts st = 5 \<and> crack real st = Inr st' \<and> found st' \<and> attempts st' = 5 + 2"
proof -
  have f: "map_sum id (\<lambda>s. (found s, attempts s)) (crack real (init ''ba'' 2 (Some ''ab'') True)) =
           Inr (True, 5)"
    by code_simp
  obtain st where st: "crack real (init ''ba'' 2 (Some ''ab'') True) = Inr st"
    using crack_total by blast
  with f have fs: "found st" "attempts st = 5" by simp_all
  have fr: "password st = ''ba''" "charset st = ''ab''" "max_length st = 2"
    using crack_frame[OF st] by (simp_all add: init_def)
  have t: "tried ''ba'' (candidates ''ab'' 1) = [''a'', ''b'']" by code_simp
  from crack_resets_only_start_time [of real st "CHR ''a''"] fs st show ?thesis
    unfolding fr by (auto simp: t)
qed





text \<open>
  C8. After a run on a new instance, for every character \<open>c\<close> the hit count of \<open>c\<close> is
  the number of occurrences of \<open>c\<close> summed over all candidates tried, and when the target
  was found the matching candidate is the last of these: its characters are counted too.
  For alphabet \<open>ab\<close> and target \<open>bb\<close> the six candidates \<open>a, b, aa, ab, ba, bb\<close> give
  5 hits to each letter, the two of the match \<open>bb\<close> included.
\<close>

theorem charset_hits_counts_every_candidate:
  "\<exists>st'. crack clk (init pw m cs vb) = Inr st' \<and>
     counter_get (charset_hits st') c =
       (\<Sum>g\<leftarrow>tried pw (candidates (charset (init pw m cs vb)) m). int (count_list g c)) \<and>
     (found st' \<longrightarrow>
        tried pw (candidates (charset (init pw m cs vb)) m) \<noteq> [] \<and>
        last (tried pw (candidates (charset (init pw m cs vb)) m)) = pw)"
proof -
  let ?st = "init pw m cs vb"
  obtain st' where r: "crack clk ?st = Inr st'" using crack_total by blast
  have nf: "\<not> found ?st" by (simp add: init_fields)
  have "counter_get (charset_hits st') c =
       (\<Sum>g\<leftarrow>tried pw (candidates (charset ?st) m). int (count_list g c))"
    using crack_hits[OF r nf, of c] by (simp add: init_fields counter_get_def)
  moreover have "found st' \<longrightarrow> tried pw (candidates (charset ?st) m) \<noteq> [] \<and>
        last (tried pw (candidates (charset ?st) m)) = pw"
    using crack_found[OF r nf] tried_last[of pw "candidates (charset ?st) m"]
    by (simp add: init_fields)
  ultimately show ?thesis using r by blast
qed

theorem charset_hits_counts_every_candidate_witness:
  "\<exists>st'. crack real (init ''bb'' 2 (Some ''ab'') True) = Inr st' \<and> found st' \<and>
     tried ''bb'' (candidates ''ab'' 2) = [''a'', ''b'', ''aa'', ''ab'', ''ba'', ''bb''] \<and>
     counter_get (charset_hits st') CHR ''a'' = 5 \<and>
     counter_get (charset_hits st') CHR ''b'' = 5"
proof -
  have c: "charset (init ''bb'' 2 (Some ''ab'') True) = ''ab''" by (simp add: init_def)
  have t: "tried ''bb'' (candidates ''ab'' 2) = [''a'', ''b'', ''aa'', ''ab'', ''ba'', ''bb'']"
    by code_simp
  have f: "map_sum id found (crack real (init ''bb'' 2 (Some ''ab'') True)) = Inr True"
    by code_simp
  from charset_hits_counts_every_candidate [of real "''bb''" 2 "Some ''ab''" True "CHR ''a''"]
    charset_hits_counts_every_candidate [of real "''bb''" 2 "Some ''ab''" True "CHR ''b''"]
  show ?thesis using f unfolding c t by auto
qed



text \<open>
  C10. When the charset argument is \<open>None\<close> or the empty string, the constructor raises
  nothing and stores the default alphabet, the 94 distinct characters of
  \<open>ascii_letters + digits + punctuation\<close>; \<open>crack\<close> then returns normally, having
  enumerated the candidates over these 94 symbols.
\<close>

theorem empty_charset_replaced_by_default:
  "cs = None \<or> cs = Some [] \<Longrightarrow>
   PasswordCracker pw m cs vb = Inr (init pw m cs vb) \<and>
   charset (init pw m cs vb) = ascii_letters @ digits @ punctuation \<and>
   length (charset (init pw m cs vb)) = 94 \<and>
   distinct (charset (init pw m cs vb)) \<and>
   (\<exists>st'. crack clk (init pw m cs vb) = Inr st' \<and>
      charset st' = ascii_letters @ digits @ punctuation \<and>
      found st' = (pw \<in> set (candidates (ascii_letters @ digits @ punctuation) m)) \<and>
      attempts st' =
        int (length (tried pw (candidates (ascii_letters @ digits @ punctuation) m))))"
proof -
  assume a: "cs = None \<or> cs = Some []"
  let ?st = "init pw m cs vb"
  have c: "charset ?st = ascii_letters @ digits @ punctuation"
    using a by (auto simp: init_def default_charset_def)
  have len: "length (charset ?st) = 94"
    unfolding c using default_charset_length by (simp add: default_charset_def)
  have d: "distinct (charset ?st)"
    unfolding c
    by (simp add: ascii_letters_def ascii_lowercase_def ascii_uppercase_def digits_def
        punctuation_def)
  obtain st' where r: "crack clk ?st = Inr st'" using crack_total by blast
  have nf: "\<not> found ?st" by (simp add: init_fields)
  have "charset st' = ascii_letters @ digits @ punctuation"
    using crack_frame[OF r] c by simp
  moreover have "found st' = (pw \<in> set (candidates (ascii_letters @ digits @ punctuation) m))"
    using crack_found[OF r nf] c by (simp add: init_fields)
  moreover have "attempts st' =
      int (length (tried pw (candidates (ascii_letters @ digits @ punctuation) m)))"
    using crack_attempts[OF r nf] c by (simp add: init_fields)
  ultimately have "\<exists>st'. crack clk ?st = Inr st' \<and>
      charset st' = ascii_letters @ digits @ punctuation \<and>
      found st' = (pw \<in> set (candidates (ascii_letters @ digits @ punctuation) m)) \<and>
      attempts st' =
        int (length (tried pw (candidates (ascii_letters @ digits @ punctuation) m)))"
    using r by blast
  with c len d show ?thesis by (simp add: PasswordCracker_def)
qed

theorem empty_charset_replaced_by_default_witness:
  "(Some [] = (None :: string option) \<or> Some [] = Some ([] :: string)) \<and>
   charset (init ''b'' 1 (Some []) True) = ascii_letters @ digits @ punctuation \<and>
   (\<exists>st'. crack real (init ''b'' 1 (Some []) True) = Inr st' \<and> found st' \<and> attempts st' = 2)"
proof -
  have t: "tried ''b'' (candidates (ascii_letters @ digits @ punctuation) 1) = [''a'', ''b'']"
    by code_simp
  have h: "Some [] = (None :: string option) \<or> Some [] = Some ([] :: string)" by simp
  have m: "''b'' \<in> set (candidates (ascii_letters @ digits @ punctuation) 1)"
    by code_simp
  from empty_charset_replaced_by_default [OF h, of "''b''" 1 True real]
  show ?thesis unfolding t using m by auto
qed

end
